theory Spec2Isabelle
  imports Complex_Main "HOL-Library.Word" "HOL-Library.Sublist" "HOL-Library.List_Lexorder"
    "HOL-Library.Multiset"
begin

section \<open>Python values used by \<^verbatim>\<open>linehaul/server.py\<close>\<close>

text \<open>
  The exceptions that can travel through the functions of \<^verbatim>\<open>server.py\<close>.
  \<^verbatim>\<open>UnicodeDecodeError\<close> is a subclass of \<^verbatim>\<open>ValueError\<close>; all of them are
  subclasses of \<^verbatim>\<open>Exception\<close> except \<^verbatim>\<open>Cancelled\<close> (trio's cancellation) and
  \<^verbatim>\<open>KeyboardInterrupt\<close>, which derive from \<^verbatim>\<open>BaseException\<close> only.
  \<^verbatim>\<open>OtherException\<close> stands for any further subclass of \<^verbatim>\<open>Exception\<close>.
\<close>

datatype py_exn =
    ValueError
  | UnicodeDecodeError
  | TooSlowError
  | BrokenStreamError
  | BufferTooLargeError
  | TruncatedLineError
  | IndexError
  | OtherException
  | Cancelled
  | KeyboardInterrupt

fun is_ValueError :: "py_exn \<Rightarrow> bool" where
  "is_ValueError ValueError = True"
| "is_ValueError UnicodeDecodeError = True"
| "is_ValueError _ = False"

fun is_Exception :: "py_exn \<Rightarrow> bool" where
  "is_Exception Cancelled = False"
| "is_Exception KeyboardInterrupt = False"
| "is_Exception _ = True"

text \<open>
  A Python \<^verbatim>\<open>bytes\<close> value is a list of bytes; a Python \<^verbatim>\<open>str\<close> is a list of
  Unicode code points, so that \<^verbatim>\<open>len\<close>, slicing and \<^verbatim>\<open>startswith\<close> count code
  points, as Python does.
\<close>

type_synonym byte = "8 word"
type_synonym bytes = "byte list"
type_synonym str = "nat list"

subsection \<open>\<^verbatim>\<open>bytes.decode("utf8")\<close>\<close>

text \<open>
  The strict UTF-8 decoder: shortest forms only, no surrogates (\<^verbatim>\<open>U+D800..U+DFFF\<close>),
  nothing above \<^verbatim>\<open>U+10FFFF\<close>. \<open>None\<close> is the \<^verbatim>\<open>UnicodeDecodeError\<close>.
\<close>

definition is_cont :: "nat \<Rightarrow> bool" where
  "is_cont b \<longleftrightarrow> 0x80 \<le> b \<and> b \<le> 0xBF"

definition second_ok :: "nat \<Rightarrow> nat \<Rightarrow> bool" where
  "second_ok b0 b1 \<longleftrightarrow>
     (if b0 = 0xE0 then 0xA0 \<le> b1 \<and> b1 \<le> 0xBF
      else if b0 = 0xED then 0x80 \<le> b1 \<and> b1 \<le> 0x9F
      else if b0 = 0xF0 then 0x90 \<le> b1 \<and> b1 \<le> 0xBF
      else if b0 = 0xF4 then 0x80 \<le> b1 \<and> b1 \<le> 0x8F
      else is_cont b1)"

fun utf8_points :: "nat list \<Rightarrow> str option" where
  "utf8_points [] = Some []"
| "utf8_points (b0 # bs) =
     (if b0 < 0x80 then map_option ((#) b0) (utf8_points bs)
      else if 0xC2 \<le> b0 \<and> b0 \<le> 0xDF then
        (case bs of
           b1 # r \<Rightarrow>
             if is_cont b1
             then map_option ((#) ((b0 - 0xC0) * 64 + (b1 - 0x80))) (utf8_points r)
             else None
         | _ \<Rightarrow> None)
      else if 0xE0 \<le> b0 \<and> b0 \<le> 0xEF then
        (case bs of
           b1 # b2 # r \<Rightarrow>
             if second_ok b0 b1 \<and> is_cont b2
             then map_option
                    ((#) ((b0 - 0xE0) * 4096 + (b1 - 0x80) * 64 + (b2 - 0x80)))
                    (utf8_points r)
             else None
         | _ \<Rightarrow> None)
      else if 0xF0 \<le> b0 \<and> b0 \<le> 0xF4 then
        (case bs of
           b1 # b2 # b3 # r \<Rightarrow>
             if second_ok b0 b1 \<and> is_cont b2 \<and> is_cont b3
             then map_option
                    ((#) ((b0 - 0xF0) * 262144 + (b1 - 0x80) * 4096
                          + (b2 - 0x80) * 64 + (b3 - 0x80)))
                    (utf8_points r)
             else None
         | _ \<Rightarrow> None)
      else None)"

definition decode_utf8 :: "bytes \<Rightarrow> str option" where
  "decode_utf8 line = utf8_points (map unat line)"

section \<open>Non I/O functions\<close>

subsection \<open>\<^verbatim>\<open>parse_line\<close>\<close>

text \<open>
  \<^verbatim>\<open>linehaul.syslog.parser\<close> and \<^verbatim>\<open>linehaul.events.parser\<close> are collaborators
  of \<^verbatim>\<open>server.py\<close>; \<^verbatim>\<open>parse_line\<close> is verified for every behaviour they can
  have. Each either returns a value or raises an exception.
\<close>

record ('m, 'e) parsers =
  syslog_parse :: "str \<Rightarrow> py_exn + 'm"
  message :: "'m \<Rightarrow> str"
  event_parse :: "str \<Rightarrow> py_exn + 'e"

text \<open>
  Lines 57 to 64: the \<^verbatim>\<open>try\<close> block. A \<^verbatim>\<open>ValueError\<close> of either parser gives
  \<^verbatim>\<open>None\<close>; any other exception leaves the function.
\<close>

definition parse_envelope :: "('m, 'e) parsers \<Rightarrow> str \<Rightarrow> py_exn + 'e option" where
  "parse_envelope P text =
     (case syslog_parse P text of
        Inl x \<Rightarrow> if is_ValueError x then Inr None else Inl x
      | Inr msg \<Rightarrow>
          (case event_parse P (message P msg) of
             Inl x \<Rightarrow> if is_ValueError x then Inr None else Inl x
           | Inr event \<Rightarrow> Inr (Some event)))"

text \<open>
  \<^verbatim>\<open>parse_line(line, token=None)\<close>. The decoding of line 47 stands before the
  \<^verbatim>\<open>try\<close>, so its \<^verbatim>\<open>UnicodeDecodeError\<close> is not caught. \<open>Inr None\<close> is the
  bare \<^verbatim>\<open>return\<close>.
\<close>

definition parse_line :: "('m, 'e) parsers \<Rightarrow> bytes \<Rightarrow> str option \<Rightarrow> py_exn + 'e option" where
  "parse_line P line token =
     (case decode_utf8 line of
        None \<Rightarrow> Inl UnicodeDecodeError
      | Some text \<Rightarrow>
          (case token of
             None \<Rightarrow> parse_envelope P text
           | Some tok \<Rightarrow>
               if \<not> prefix tok text then Inr None
               else parse_envelope P (drop (length tok) text)))"

subsection \<open>\<^verbatim>\<open>extract_item_date\<close>\<close>

text \<open>
  The timestamp of an event is an \<^verbatim>\<open>arrow.Arrow\<close>: a calendar date, a time of day
  and an offset from UTC. Python's \<^verbatim>\<open>datetime\<close> admits the years 1 to 9999 of the
  proleptic Gregorian calendar.
\<close>

record datetime =
  year :: nat
  month :: nat
  day :: nat
  hour :: nat
  minute :: nat
  second :: nat
  microsecond :: nat
  utcoffset :: int

definition is_leap :: "nat \<Rightarrow> bool" where
  "is_leap y \<longleftrightarrow> y mod 4 = 0 \<and> (y mod 100 \<noteq> 0 \<or> y mod 400 = 0)"

definition days_in_month :: "nat \<Rightarrow> nat \<Rightarrow> nat" where
  "days_in_month y m =
     (if m = 2 then (if is_leap y then 29 else 28)
      else if m = 4 \<or> m = 6 \<or> m = 9 \<or> m = 11 then 30 else 31)"

definition days_before_month :: "nat \<Rightarrow> nat \<Rightarrow> nat" where
  "days_before_month y m =
     [0, 0, 31, 59, 90, 120, 151, 181, 212, 243, 273, 304, 334] ! m
       + (if 2 < m \<and> is_leap y then 1 else 0)"

definition valid_date :: "datetime \<Rightarrow> bool" where
  "valid_date t \<longleftrightarrow>
     1 \<le> year t \<and> year t \<le> 9999 \<and> 1 \<le> month t \<and> month t \<le> 12 \<and>
     1 \<le> day t \<and> day t \<le> days_in_month (year t) (month t)"

text \<open>\<^verbatim>\<open>dt.timetuple().tm_yday\<close>: the day of the year, from 1.\<close>

definition tm_yday :: "datetime \<Rightarrow> nat" where
  "tm_yday t = days_before_month (year t) (month t) + day t"

text \<open>\<^verbatim>\<open>str(n)\<close> of a natural number, and \<^verbatim>\<open>'{0:04d}'.format(n)\<close>.\<close>

fun str_nat :: "nat \<Rightarrow> str" where
  "str_nat n = (if n < 10 then [48 + n] else str_nat (n div 10) @ [48 + n mod 10])"

declare str_nat.simps [simp del]

definition format_04d :: "nat \<Rightarrow> str" where
  "format_04d n = replicate (4 - length (str_nat n)) 48 @ str_nat n"

text \<open>
  \<^verbatim>\<open>timestamp.format("YYYYMDDD")\<close>. Arrow's formatter splits the format with the
  regular expression \<^verbatim>\<open>YYY?Y?|MM?M?M?|Do|DD?D?D?|...\<close>, which reads
  \<^verbatim>\<open>YYYYMDDD\<close> as the three tokens \<^verbatim>\<open>YYYY\<close> (the year, four digits, zero
  padded), \<^verbatim>\<open>M\<close> (the month number, not padded) and \<^verbatim>\<open>DDD\<close> (the day of
  the year, not padded).
\<close>

definition format_YYYYMDDD :: "datetime \<Rightarrow> str" where
  "format_YYYYMDDD t = format_04d (year t) @ str_nat (month t) @ str_nat (tm_yday t)"

record 'f download =
  timestamp :: datetime
  details :: 'f

definition extract_item_date :: "'f download \<Rightarrow> str" where
  "extract_item_date item = format_YYYYMDDD (timestamp item)"

definition same_calendar_day :: "datetime \<Rightarrow> datetime \<Rightarrow> bool" where
  "same_calendar_day s t \<longleftrightarrow> year s = year t \<and> month s = month t \<and> day s = day t"

subsection \<open>\<^verbatim>\<open>compute_batches\<close>\<close>

text \<open>
  \<^verbatim>\<open>itertools.groupby(xs, key)\<close>: the maximal runs of consecutive elements with
  equal keys, each with its key.
\<close>

function groupby :: "('a \<Rightarrow> 'k) \<Rightarrow> 'a list \<Rightarrow> ('k \<times> 'a list) list" where
  "groupby f [] = []"
| "groupby f (x # xs) =
     (f x, x # takeWhile (\<lambda>y. f y = f x) xs) # groupby f (dropWhile (\<lambda>y. f y = f x) xs)"
  by pat_completeness auto
termination
  by (relation "measure (\<lambda>(f, xs). length xs)")
     (auto simp: length_dropWhile_le less_Suc_eq_le)

text \<open>
  One record of a batch: \<^verbatim>\<open>{"insertId": str(uuid.uuid4()), "json": row}\<close>.
\<close>

record 'j batch_record =
  insertId :: str
  json :: 'j

text \<open>
  \<^verbatim>\<open>uuid.uuid4()\<close> is random. The model reads the identifiers from a sequence
  \<open>uuid4_str\<close> of draws, where \<open>uuid4_str i\<close> is the value of the \<open>i\<close>-th call of
  \<^verbatim>\<open>str(uuid.uuid4())\<close> in the run of the process, and threads the number of draws
  made so far. \<open>unstructure\<close> is what \<^verbatim>\<open>_cattr.unstructure\<close> makes of one item.
\<close>

definition make_batch :: "(nat \<Rightarrow> str) \<Rightarrow> ('e \<Rightarrow> 'j) \<Rightarrow> nat \<Rightarrow> 'e list \<Rightarrow> 'j batch_record list" where
  "make_batch uuid4_str unstructure n items =
     map (\<lambda>(i, row). \<lparr>insertId = uuid4_str (n + i), json = row\<rparr>)
       (enumerate 0 (map unstructure items))"

text \<open>
  The body of the \<^verbatim>\<open>for\<close> loop, for the groups in order. \<^verbatim>\<open>items[0]\<close> raises
  \<^verbatim>\<open>IndexError\<close> on an empty group. The function is a generator; \<^verbatim>\<open>sender\<close>
  runs it to its end.
\<close>

fun yield_batches ::
  "(nat \<Rightarrow> str) \<Rightarrow> ('f download \<Rightarrow> 'j) \<Rightarrow> nat \<Rightarrow> (str \<times> 'f download list) list
     \<Rightarrow> py_exn + ((str \<times> 'j batch_record list) list \<times> nat)" where
  "yield_batches uuid4_str unstructure n [] = Inr ([], n)"
| "yield_batches uuid4_str unstructure n ((date, items) # groups) =
     (case items of
        [] \<Rightarrow> Inl IndexError
      | first # _ \<Rightarrow>
          (case yield_batches uuid4_str unstructure (n + length items) groups of
             Inl x \<Rightarrow> Inl x
           | Inr (rest, n') \<Rightarrow>
               Inr ((extract_item_date first, make_batch uuid4_str unstructure n items) # rest,
                    n')))"

definition compute_batches ::
  "(nat \<Rightarrow> str) \<Rightarrow> ('f download \<Rightarrow> 'j) \<Rightarrow> nat \<Rightarrow> 'f download list
     \<Rightarrow> py_exn + ((str \<times> 'j batch_record list) list \<times> nat)" where
  "compute_batches uuid4_str unstructure n all_items =
     yield_batches uuid4_str unstructure n
       (groupby extract_item_date (sort_key extract_item_date all_items))"

text \<open>The number a string of decimal digits denotes (used in the proofs only).\<close>

definition decimal_value :: "str \<Rightarrow> nat" where
  "decimal_value s = foldl (\<lambda>acc c. 10 * acc + (c - 48)) 0 s"

text \<open>
  What the proofs and statements observe of a list of batches: the rows and the
  insertion identifiers of all records, in the order of the batches.
\<close>

definition batch_rows :: "(str \<times> 'j batch_record list) list \<Rightarrow> 'j list" where
  "batch_rows batches = concat (map (\<lambda>(k, b). map json b) batches)"

definition batch_ids :: "(str \<times> 'j batch_record list) list \<Rightarrow> str list" where
  "batch_ids batches = concat (map (\<lambda>(k, b). map insertId b) batches)"

subsection \<open>Example inputs\<close>

text \<open>Three events on two days, used where a statement is evaluated on an input.\<close>

definition at_midnight :: "nat \<Rightarrow> nat \<Rightarrow> nat \<Rightarrow> datetime" where
  "at_midnight y m d =
     \<lparr>year = y, month = m, day = d, hour = 0, minute = 0, second = 0, microsecond = 0,
      utcoffset = 0\<rparr>"

definition example_items :: "nat download list" where
  "example_items =
     [\<lparr>timestamp = at_midnight 2018 11 1, details = 1\<rparr>,
      \<lparr>timestamp = at_midnight 2018 1 5, details = 2\<rparr>,
      \<lparr>timestamp = at_midnight 2018 11 1, details = 3\<rparr>]"

section \<open>I/O functions\<close>

text \<open>
  The asynchronous functions are modelled by what they do to their collaborators, as a
  list of actions in the order they happen, and by how they end: \<open>None\<close> for a normal
  return, \<open>Some x\<close> when the exception \<open>x\<close> leaves the function.
\<close>

subsection \<open>\<^verbatim>\<open>handle_connection\<close>\<close>

text \<open>
  \<^verbatim>\<open>linehaul.protocol.LineReceiver\<close> is a collaborator; \<^verbatim>\<open>handle_connection\<close> is
  verified for every line receiver. \<^verbatim>\<open>recieve_data\<close> hands over some events and then
  either raises or leaves the receiver in a new state (a receiver that builds a list
  before it returns hands over no event when it raises); \<^verbatim>\<open>close\<close> may raise.
  Exceptions of the callback \<^verbatim>\<open>parse_line\<close> come out of \<^verbatim>\<open>recieve_data\<close>.
\<close>

record ('s, 'e) line_receiver =
  recieve_data :: "'s \<Rightarrow> bytes \<Rightarrow> 'e list \<times> (py_exn + 's)"
  close :: "'s \<Rightarrow> py_exn option"

text \<open>
  One \<^verbatim>\<open>await stream.receive_some(recv_size)\<close>: some bytes (none at the end of the
  stream) or an exception. The stream is the list of what the successive calls give; a
  stream whose list is used up is at its end.
\<close>

datatype recv = Data bytes | RecvRaises py_exn

datatype 'e conn_action =
    Put 'e
  | Raised py_exn
  | Aclose nat

text \<open>
  The body of the \<^verbatim>\<open>while\<close> loop after \<open>data\<close> is known: the events of
  \<^verbatim>\<open>lr.recieve_data(data)\<close> are put on the queue; on empty data the receiver is
  closed and the loop ends. \<open>Inl exit\<close> ends the loop (\<open>exit\<close> is the exception, if
  any), \<open>Inr s\<close> goes on with the receiver in state \<open>s\<close>.
\<close>

definition feed ::
  "('s, 'e) line_receiver \<Rightarrow> 's \<Rightarrow> bytes \<Rightarrow> 'e conn_action list \<times> (py_exn option + 's)" where
  "feed lr s data =
     (case recieve_data lr s data of
        (events, Inl x) \<Rightarrow> (map Put events @ [Raised x], Inl (Some x))
      | (events, Inr s') \<Rightarrow>
          if data = [] then
            (case close lr s' of
               Some x \<Rightarrow> (map Put events @ [Raised x], Inl (Some x))
             | None \<Rightarrow> (map Put events, Inl None))
          else (map Put events, Inr s'))"

text \<open>
  The \<^verbatim>\<open>while True\<close> loop of lines 105 to 118. A \<^verbatim>\<open>BrokenStreamError\<close> of the
  stream counts as empty data; any other exception of the stream leaves the loop.
\<close>

fun receive_loop ::
  "('s, 'e) line_receiver \<Rightarrow> 's \<Rightarrow> recv list \<Rightarrow> 'e conn_action list \<times> py_exn option" where
  "receive_loop lr s [] =
     (case feed lr s [] of (acts, Inl exit) \<Rightarrow> (acts, exit) | (acts, Inr s') \<Rightarrow> (acts, None))"
| "receive_loop lr s (r # rs) =
     (case r of
        RecvRaises x \<Rightarrow>
          if x = BrokenStreamError then
            (case feed lr s [] of
               (acts, Inl exit) \<Rightarrow> (acts, exit)
             | (acts, Inr s') \<Rightarrow> (acts, None))
          else ([Raised x], Some x)
      | Data data \<Rightarrow>
          (case feed lr s data of
             (acts, Inl exit) \<Rightarrow> (acts, exit)
           | (acts, Inr s') \<Rightarrow>
               (case receive_loop lr s' rs of (later, exit) \<Rightarrow> (acts @ later, exit))))"

text \<open>
  \<^verbatim>\<open>handle_connection\<close> from line 104: the two \<^verbatim>\<open>except\<close> clauses and the
  \<^verbatim>\<open>finally\<close> clause, which closes the stream under \<^verbatim>\<open>trio.move_on_after(30)\<close>.
\<close>

definition handle_connection ::
  "('s, 'e) line_receiver \<Rightarrow> 's \<Rightarrow> recv list \<Rightarrow> 'e conn_action list \<times> py_exn option" where
  "handle_connection lr s stream =
     (case receive_loop lr s stream of
        (acts, None) \<Rightarrow> (acts @ [Aclose 30], None)
      | (acts, Some x) \<Rightarrow>
          if x = BufferTooLargeError \<or> x = TruncatedLineError
          then (acts @ [Aclose 30], None)
          else (acts @ [Aclose 30], Some x))"

text \<open>
  A line receiver for examples: every chunk of at most two bytes is one event, a longer
  one is an oversized line.
\<close>

definition example_receiver :: "(unit, bytes) line_receiver" where
  "example_receiver =
     \<lparr>recieve_data =
        (\<lambda>s data. if 2 < length data then ([], Inl BufferTooLargeError)
                  else if data = [] then ([], Inr s) else ([data], Inr s)),
      close = (\<lambda>s. None)\<rparr>"

subsection \<open>\<^verbatim>\<open>actually_send_batch\<close> and \<^verbatim>\<open>send_batch\<close>\<close>

text \<open>
  What \<^verbatim>\<open>bq.insert_all\<close> does when it is called for the \<open>k\<close>-th time: it returns,
  it raises, or it is still running when the timeout of the attempt expires.
\<close>

datatype insert_outcome = Inserted | InsertRaises py_exn | InsertTooSlow

datatype send_action =
    Attempt nat rat
  | BeforeSleepLog
  | Sleep rat
  | LogError nat
  | LogException nat

text \<open>
  The body of \<^verbatim>\<open>actually_send_batch\<close>, lines 134 to 138. \<^verbatim>\<open>trio.fail_after\<close>
  raises \<^verbatim>\<open>ValueError\<close> for a negative timeout, and \<^verbatim>\<open>TooSlowError\<close> when the
  timeout expires.
\<close>

definition insert_within :: "(nat \<Rightarrow> insert_outcome) \<Rightarrow> rat option \<Rightarrow> nat \<Rightarrow> py_exn option" where
  "insert_within bq api_timeout k =
     (let timeout = (case api_timeout of None \<Rightarrow> 15 | Some t \<Rightarrow> t) in
      if timeout < 0 then Some ValueError
      else
        (case bq k of
           Inserted \<Rightarrow> None
         | InsertRaises x \<Rightarrow> Some x
         | InsertTooSlow \<Rightarrow> Some TooSlowError))"

text \<open>
  The strategies of tenacity that the decorator and \<^verbatim>\<open>retry_with\<close> set:
  \<^verbatim>\<open>retry_if_exception_type((trio.TooSlowError, trio.BrokenStreamError))\<close>,
  \<^verbatim>\<open>stop_after_attempt(retry_max_attempts)\<close>, which is asked after a failed attempt
  and compares \<^verbatim>\<open>attempt_number >= max_attempt_number\<close>, and
  \<^verbatim>\<open>wait_exponential(multiplier, max)\<close>, which gives
  \<^verbatim>\<open>max(0, min(multiplier * 2 ** attempt_number, max))\<close> for the number of the
  attempt that has just failed (tenacity 4 and 5, the releases of the time of the
  source; later releases take the exponent one lower, which changes the values of the
  waits and nothing else). Times are rational numbers.
\<close>

definition retry_if_exception_type :: "py_exn \<Rightarrow> bool" where
  "retry_if_exception_type x \<longleftrightarrow> x = TooSlowError \<or> x = BrokenStreamError"

definition stop_after_attempt :: "int \<Rightarrow> nat \<Rightarrow> bool" where
  "stop_after_attempt max_attempt_number attempt_number \<longleftrightarrow>
     max_attempt_number \<le> int attempt_number"

definition wait_exponential :: "rat \<Rightarrow> rat \<Rightarrow> nat \<Rightarrow> rat" where
  "wait_exponential multiplier max_wait attempt_number =
     max 0 (min (multiplier * 2 ^ attempt_number) max_wait)"

text \<open>
  The decorated \<^verbatim>\<open>actually_send_batch\<close>: tenacity's loop around the body, from the
  attempt \<open>attempt_number\<close> on. With \<^verbatim>\<open>reraise=True\<close> the last exception is raised
  when the attempts are used up; an exception that is not retried is raised at once.
\<close>

function actually_send_batch ::
  "(nat \<Rightarrow> insert_outcome) \<Rightarrow> rat option \<Rightarrow> (nat \<Rightarrow> rat) \<Rightarrow> int \<Rightarrow> nat
     \<Rightarrow> send_action list \<times> py_exn option" where
  "actually_send_batch bq api_timeout wait max_attempts attempt_number =
     (let timeout = (case api_timeout of None \<Rightarrow> 15 | Some t \<Rightarrow> t) in
      case insert_within bq api_timeout attempt_number of
        None \<Rightarrow> ([Attempt attempt_number timeout], None)
      | Some x \<Rightarrow>
          if \<not> retry_if_exception_type x then ([Attempt attempt_number timeout], Some x)
          else if stop_after_attempt max_attempts attempt_number
          then ([Attempt attempt_number timeout], Some x)
          else
            (case actually_send_batch bq api_timeout wait max_attempts (Suc attempt_number) of
               (acts, r) \<Rightarrow>
                 (Attempt attempt_number timeout # BeforeSleepLog
                    # Sleep (wait attempt_number) # acts, r)))"
  by pat_completeness auto
termination
  by (relation "measure (\<lambda>(bq, t, w, m, k). nat (m - int k))")
     (auto simp: stop_after_attempt_def)

declare actually_send_batch.simps [simp del]

text \<open>
  \<^verbatim>\<open>send_batch\<close>: the defaults, the call of the retrying function from the first
  attempt, and the two \<^verbatim>\<open>except\<close> clauses, \<^verbatim>\<open>trio.TooSlowError\<close> first, then
  \<^verbatim>\<open>Exception\<close>. The log entries carry \<^verbatim>\<open>len(batch)\<close>.
\<close>

definition send_batch ::
  "(nat \<Rightarrow> insert_outcome) \<Rightarrow> 'r list \<Rightarrow> int option \<Rightarrow> rat option \<Rightarrow> rat option \<Rightarrow> rat option
     \<Rightarrow> send_action list \<times> py_exn option" where
  "send_batch bq batch retry_max_attempts retry_max_wait retry_multiplier api_timeout =
     (let max_attempts = (case retry_max_attempts of None \<Rightarrow> 15 | Some m \<Rightarrow> m);
          max_wait = (case retry_max_wait of None \<Rightarrow> 60 | Some w \<Rightarrow> w);
          multiplier = (case retry_multiplier of None \<Rightarrow> 1 / 2 | Some c \<Rightarrow> c)
      in case actually_send_batch bq api_timeout (wait_exponential multiplier max_wait)
                max_attempts 1 of
           (acts, None) \<Rightarrow> (acts, None)
         | (acts, Some x) \<Rightarrow>
             if x = TooSlowError then (acts @ [LogError (length batch)], None)
             else if is_Exception x then (acts @ [LogException (length batch)], None)
             else (acts, Some x))"

text \<open>The numbers of the attempts in a list of actions, and its waits.\<close>

fun attempts :: "send_action list \<Rightarrow> nat list" where
  "attempts [] = []"
| "attempts (Attempt k t # acts) = k # attempts acts"
| "attempts (_ # acts) = attempts acts"


subsection \<open>\<^verbatim>\<open>sender\<close>\<close>





section \<open>Properties of \<^verbatim>\<open>parse_line\<close>\<close>

lemma decode_utf8_invalid_start_byte: "decode_utf8 [0xFF] = None"
  by (simp add: decode_utf8_def)

lemma parse_envelope_ValueError_only:
  assumes "\<And>s x. syslog_parse P s = Inl x \<Longrightarrow> is_ValueError x"
    and "\<And>s x. event_parse P s = Inl x \<Longrightarrow> is_ValueError x"
  shows "\<exists>r. parse_envelope P text = Inr r"
  using assms by (auto simp: parse_envelope_def split: sum.splits)

lemma parse_line_decodable_returns:
  assumes "decode_utf8 line = Some text"
    and "\<And>s x. syslog_parse P s = Inl x \<Longrightarrow> is_ValueError x"
    and "\<And>s x. event_parse P s = Inl x \<Longrightarrow> is_ValueError x"
  shows "\<exists>r. parse_line P line token = Inr r"
  using assms(1) parse_envelope_ValueError_only [OF assms(2,3)]
  by (cases token) (auto simp: parse_line_def)

text \<open>
  C1. The claim: for every line and token \<^verbatim>\<open>parse_line\<close> returns an event or
  nothing, a line that is not valid UTF-8 gives no event, and no error leaves
  \<^verbatim>\<open>parse_line\<close>. The code decodes the line before its \<^verbatim>\<open>try\<close> block: on the
  one-byte line \<^verbatim>\<open>b"\xff"\<close>, whatever the parsers and the token are,
  \<^verbatim>\<open>parse_line\<close> raises \<^verbatim>\<open>UnicodeDecodeError\<close> instead of returning \<^verbatim>\<open>None\<close>.
\<close>

theorem parse_line_invalid_utf8_raises:
  "parse_line P [0xFF] token = Inl UnicodeDecodeError"
  by (simp add: parse_line_def decode_utf8_invalid_start_byte)

text \<open>
  C6. With a token configured, a line whose decoded text does not start with the token
  gives no event; a line whose text is the token followed by \<open>rest\<close> is parsed as the
  envelope \<open>rest\<close>: exactly the token is removed before the syslog parser runs.
\<close>

theorem parse_line_token_prefix:
  assumes "decode_utf8 line = Some text"
  shows "(\<not> prefix tok text \<longrightarrow> parse_line P line (Some tok) = Inr None) \<and>
         (\<forall>rest. text = tok @ rest \<longrightarrow>
            parse_line P line (Some tok) = parse_envelope P rest)"
  using assms by (auto simp: parse_line_def)

theorem parse_line_token_prefix_witness:
  "decode_utf8 [0x73, 0x3C, 0x31] = Some [0x73, 0x3C, 0x31] \<and>
   parse_line \<lparr>syslog_parse = Inr, message = id, event_parse = Inr\<rparr>
     [0x73, 0x3C, 0x31] (Some [0x74]) = Inr None \<and>
   parse_line \<lparr>syslog_parse = Inr, message = id, event_parse = Inr\<rparr>
     [0x73, 0x3C, 0x31] (Some [0x73]) = Inr (Some [0x3C, 0x31])"
proof -
  have d: "decode_utf8 [0x73, 0x3C, 0x31] = Some [0x73, 0x3C, 0x31]"
    by (simp add: decode_utf8_def)
  show ?thesis
    using d
      parse_line_token_prefix [OF d, of "[0x74]"
        "\<lparr>syslog_parse = Inr, message = id, event_parse = Inr\<rparr>"]
      parse_line_token_prefix [OF d, of "[0x73]"
        "\<lparr>syslog_parse = Inr, message = id, event_parse = Inr\<rparr>"]
    by (simp add: parse_envelope_def)
qed

text \<open>
  C10. The empty token behaves as no token: every line starts with the empty string and
  removing it removes nothing. This holds for every line, also one that does not decode.
\<close>

theorem parse_line_empty_token:
  "parse_line P line (Some []) = parse_line P line None"
  by (simp add: parse_line_def split: option.splits)

section \<open>Properties of \<^verbatim>\<open>extract_item_date\<close>\<close>

lemma decimal_value_snoc: "decimal_value (s @ [c]) = 10 * decimal_value s + (c - 48)"
  by (simp add: decimal_value_def)

lemma decimal_value_str_nat: "decimal_value (str_nat n) = n"
proof (induction n rule: str_nat.induct)
  case (1 n)
  show ?case
  proof (cases "n < 10")
    case True
    then show ?thesis by (simp add: str_nat.simps [of n] decimal_value_def)
  next
    case False
    with 1 show ?thesis by (simp add: str_nat.simps [of n] decimal_value_snoc)
  qed
qed

lemma str_nat_inject: "str_nat a = str_nat b \<Longrightarrow> a = b"
  by (metis decimal_value_str_nat)

lemma foldl_zeros: "foldl (\<lambda>acc c. 10 * acc + (c - 48)) 0 (replicate k (48::nat)) = (0::nat)"
  by (induction k) simp_all

lemma decimal_value_zeros: "decimal_value (replicate k 48 @ s) = decimal_value s"
  by (simp add: decimal_value_def foldl_zeros)

lemma decimal_value_format_04d: "decimal_value (format_04d n) = n"
  by (simp add: format_04d_def decimal_value_zeros decimal_value_str_nat)

lemma length_str_nat_1: "n < 10 \<Longrightarrow> length (str_nat n) = 1"
  by (simp add: str_nat.simps [of n])

lemma length_str_nat_2: "10 \<le> n \<Longrightarrow> n < 100 \<Longrightarrow> length (str_nat n) = 2"
  by (simp add: str_nat.simps [of n] length_str_nat_1)

lemma length_str_nat_3: "100 \<le> n \<Longrightarrow> n < 1000 \<Longrightarrow> length (str_nat n) = 3"
  by (simp add: str_nat.simps [of n] length_str_nat_2)

lemma length_str_nat_4: "1000 \<le> n \<Longrightarrow> n < 10000 \<Longrightarrow> length (str_nat n) = 4"
  by (simp add: str_nat.simps [of n] length_str_nat_3)

lemma length_str_nat_le_4: "n < 10000 \<Longrightarrow> length (str_nat n) \<le> 4"
  using length_str_nat_1 [of n] length_str_nat_2 [of n] length_str_nat_3 [of n]
    length_str_nat_4 [of n]
  by (cases "n < 10"; cases "n < 100"; cases "n < 1000") simp_all

lemma length_format_04d: "n < 10000 \<Longrightarrow> length (format_04d n) = 4"
  using length_str_nat_le_4 [of n] by (simp add: format_04d_def)

lemma month_cases:
  assumes "valid_date t"
  shows "month t \<in> {1,2,3,4,5,6,7,8,9,10,11,12}"
proof -
  from assms have "1 \<le> month t" "month t \<le> 12"
    by (simp_all add: valid_date_def)
  then show ?thesis
    by (simp only: insert_iff empty_iff) arith
qed

lemma tm_yday_le:
  assumes "valid_date t"
  shows "tm_yday t \<le> 366"
  using month_cases [OF assms] assms
  unfolding valid_date_def tm_yday_def days_before_month_def days_in_month_def
  by (elim insertE emptyE) (simp_all split: if_splits)

lemma tm_yday_ge:
  assumes "valid_date t" and "10 \<le> month t"
  shows "274 \<le> tm_yday t"
  using month_cases [OF assms(1)] assms
  unfolding valid_date_def tm_yday_def days_before_month_def
  by (elim insertE emptyE) (simp_all split: if_splits)

lemma month_yday_unambiguous:
  assumes v1: "valid_date s" and v2: "valid_date t"
    and eq: "str_nat (month s) @ str_nat (tm_yday s) = str_nat (month t) @ str_nat (tm_yday t)"
  shows "month s = month t \<and> tm_yday s = tm_yday t"
proof -
  have len: "length (str_nat (month s)) + length (str_nat (tm_yday s))
      = length (str_nat (month t)) + length (str_nat (tm_yday t))"
    using arg_cong [OF eq, of length] by simp
  have short: "length (str_nat (month s)) = length (str_nat (month t))"
  proof (rule ccontr)
    assume ne: "length (str_nat (month s)) \<noteq> length (str_nat (month t))"
    have ms: "month s \<le> 12" and mt: "month t \<le> 12"
      using v1 v2 by (simp_all add: valid_date_def)
    have ls: "length (str_nat (month s)) = (if month s < 10 then 1 else 2)"
      using ms by (simp add: length_str_nat_1 length_str_nat_2)
    have lt: "length (str_nat (month t)) = (if month t < 10 then 1 else 2)"
      using mt by (simp add: length_str_nat_1 length_str_nat_2)
    have ys: "length (str_nat (tm_yday s)) \<le> 3" 
      using tm_yday_le [OF v1] length_str_nat_1 [of "tm_yday s"]
        length_str_nat_2 [of "tm_yday s"] length_str_nat_3 [of "tm_yday s"]
      by (cases "tm_yday s < 10"; cases "tm_yday s < 100") simp_all
    have yt: "length (str_nat (tm_yday t)) \<le> 3" 
      using tm_yday_le [OF v2] length_str_nat_1 [of "tm_yday t"]
        length_str_nat_2 [of "tm_yday t"] length_str_nat_3 [of "tm_yday t"]
      by (cases "tm_yday t < 10"; cases "tm_yday t < 100") simp_all
    show False
    proof (cases "month s < 10")
      case True
      with ne ls lt have "10 \<le> month t" by (simp split: if_splits)
      then have "length (str_nat (tm_yday t)) = 3"
        using tm_yday_le [OF v2] tm_yday_ge [OF v2] by (simp add: length_str_nat_3)
      with len ls lt True \<open>10 \<le> month t\<close> ys show False by simp
    next
      case False
      with ne ls lt have "month t < 10" by (simp split: if_splits)
      from False have "length (str_nat (tm_yday s)) = 3"
        using tm_yday_le [OF v1] tm_yday_ge [OF v1] by (simp add: length_str_nat_3)
      with len ls lt False \<open>month t < 10\<close> yt show False by simp
    qed
  qed
  with eq have "str_nat (month s) = str_nat (month t)"
    and "str_nat (tm_yday s) = str_nat (tm_yday t)"
    by simp_all
  then show ?thesis by (simp add: str_nat_inject)
qed

lemma format_YYYYMDDD_inject:
  assumes v1: "valid_date s" and v2: "valid_date t"
    and eq: "format_YYYYMDDD s = format_YYYYMDDD t"
  shows "same_calendar_day s t"
proof -
  have ys: "year s < 10000" and yt: "year t < 10000"
    using v1 v2 by (simp_all add: valid_date_def)
  from eq have app: "format_04d (year s) @ (str_nat (month s) @ str_nat (tm_yday s))
      = format_04d (year t) @ (str_nat (month t) @ str_nat (tm_yday t))"
    by (simp add: format_YYYYMDDD_def)
  have "length (format_04d (year s)) = length (format_04d (year t))"
    using ys yt by (simp add: length_format_04d)
  with app have y4: "format_04d (year s) = format_04d (year t)"
    and rest: "str_nat (month s) @ str_nat (tm_yday s) = str_nat (month t) @ str_nat (tm_yday t)"
    by simp_all
  from y4 have y: "year s = year t"
    by (metis decimal_value_format_04d)
  from month_yday_unambiguous [OF v1 v2 rest]
  have m: "month s = month t" and d: "tm_yday s = tm_yday t" by simp_all
  from y m d have "day s = day t" by (simp add: tm_yday_def)
  with y m show ?thesis by (simp add: same_calendar_day_def)
qed

lemma format_YYYYMDDD_same_day:
  "same_calendar_day s t \<Longrightarrow> format_YYYYMDDD s = format_YYYYMDDD t"
  by (simp add: same_calendar_day_def format_YYYYMDDD_def tm_yday_def)


text \<open>
  C3. For events whose timestamps are dates of the calendar, the partition keys are equal
  exactly when the timestamps fall on the same calendar day: the year takes four
  characters, and a one-digit month cannot be confused with a two-digit one, because the
  day of the year has three digits from October on and never four.
\<close>

theorem extract_item_date_same_day_iff:
  assumes "valid_date (timestamp a)" and "valid_date (timestamp b)"
  shows "extract_item_date a = extract_item_date b
           \<longleftrightarrow> same_calendar_day (timestamp a) (timestamp b)"
proof
  assume "extract_item_date a = extract_item_date b"
  then have "format_YYYYMDDD (timestamp a) = format_YYYYMDDD (timestamp b)"
    by (simp add: extract_item_date_def)
  with assms show "same_calendar_day (timestamp a) (timestamp b)"
    by (rule format_YYYYMDDD_inject)
next
  assume "same_calendar_day (timestamp a) (timestamp b)"
  then show "extract_item_date a = extract_item_date b"
    by (simp add: extract_item_date_def format_YYYYMDDD_same_day)
qed

theorem extract_item_date_same_day_iff_witness:
  "valid_date \<lparr>year = 2018, month = 1, day = 11, hour = 23, minute = 59, second = 0,
       microsecond = 0, utcoffset = 0\<rparr> \<and>
   valid_date \<lparr>year = 2018, month = 11, day = 1, hour = 0, minute = 0, second = 0,
       microsecond = 0, utcoffset = 0\<rparr> \<and>
   extract_item_date \<lparr>timestamp = \<lparr>year = 2018, month = 1, day = 11, hour = 23, minute = 59,
       second = 0, microsecond = 0, utcoffset = 0\<rparr>, details = ()\<rparr>
   \<noteq> extract_item_date \<lparr>timestamp = \<lparr>year = 2018, month = 11, day = 1, hour = 0, minute = 0,
       second = 0, microsecond = 0, utcoffset = 0\<rparr>, details = ()\<rparr>"
  using extract_item_date_same_day_iff
    [of "\<lparr>timestamp = \<lparr>year = 2018, month = 1, day = 11, hour = 23, minute = 59,
       second = 0, microsecond = 0, utcoffset = 0\<rparr>, details = ()\<rparr>"
     "\<lparr>timestamp = \<lparr>year = 2018, month = 11, day = 1, hour = 0, minute = 0,
       second = 0, microsecond = 0, utcoffset = 0\<rparr>, details = ()\<rparr>"]
  by (simp add: valid_date_def days_in_month_def same_calendar_day_def)

section \<open>Properties of \<^verbatim>\<open>compute_batches\<close>\<close>

lemma groupby_concat: "concat (map snd (groupby f ys)) = ys"
  by (induction f ys rule: groupby.induct) simp_all

lemma set_split_run: "set xs = set (takeWhile P xs) \<union> set (dropWhile P xs)"
  by (metis set_append takeWhile_dropWhile_id)

lemma groupby_fst: "fst ` set (groupby f ys) = f ` set ys"
proof (induction f ys rule: groupby.induct)
  case (1 f)
  show ?case by simp
next
  case (2 f x xs)
  let ?P = "\<lambda>y. f y = f x"
  have a: "f ` set (takeWhile ?P xs) \<subseteq> {f x}"
    using set_takeWhileD [of _ ?P xs] by blast
  have b: "f ` set xs = f ` set (takeWhile ?P xs) \<union> f ` set (dropWhile ?P xs)"
    by (subst set_split_run [of xs ?P]) (rule image_Un)
  have "fst ` set (groupby f (x # xs)) = insert (f x) (f ` set (dropWhile ?P xs))"
    using "2.IH" by simp
  also have "\<dots> = insert (f x) (f ` set xs)"
    using a b by blast
  finally show ?case by simp
qed

lemma groupby_group:
  "(k, g) \<in> set (groupby f ys) \<Longrightarrow> g \<noteq> [] \<and> (\<forall>y\<in>set g. f y = k)"
proof (induction f ys rule: groupby.induct)
  case (1 f)
  then show ?case by simp
next
  case (2 f x xs)
  let ?P = "\<lambda>y. f y = f x"
  from "2.prems" have "(k, g) = (f x, x # takeWhile ?P xs)
      \<or> (k, g) \<in> set (groupby f (dropWhile ?P xs))"
    by simp
  then show ?case
  proof
    assume "(k, g) = (f x, x # takeWhile ?P xs)"
    then have k: "k = f x" and g: "g = x # takeWhile ?P xs" by simp_all
    show ?thesis unfolding k g by (auto dest: set_takeWhileD)
  next
    assume "(k, g) \<in> set (groupby f (dropWhile ?P xs))"
    then show ?thesis by (rule "2.IH")
  qed
qed

lemma run_of_sorted:
  fixes f :: "'a \<Rightarrow> 'k::linorder"
  assumes "sorted (map f xs)" and "\<forall>y\<in>set xs. c \<le> f y"
  shows "takeWhile (\<lambda>y. f y = c) xs = filter (\<lambda>y. f y = c) xs
         \<and> (\<forall>y\<in>set (dropWhile (\<lambda>y. f y = c) xs). c < f y)"
  using assms
proof (induction xs)
  case Nil
  show ?case by simp
next
  case (Cons y ys)
  show ?case
  proof (cases "f y = c")
    case True
    with Cons show ?thesis by simp
  next
    case False
    from Cons.prems(2) have "c \<le> f y" by simp
    with False have lt: "c < f y" by simp
    from Cons.prems(1) have "\<forall>z\<in>set ys. f y \<le> f z" by simp
    with lt have all: "\<forall>z\<in>set ys. c < f z" by auto
    then have "filter (\<lambda>y. f y = c) ys = []" by (auto simp: filter_empty_conv)
    with False lt all show ?thesis by simp
  qed
qed

lemma sorted_map_dropWhile:
  fixes f :: "'a \<Rightarrow> 'k::linorder"
  shows "sorted (map f xs) \<Longrightarrow> sorted (map f (dropWhile P xs))"
  by (induction xs) simp_all


lemma groupby_sorted:
  fixes f :: "'a \<Rightarrow> 'k::linorder"
  assumes "sorted (map f ys)"
  shows "distinct (map fst (groupby f ys))
         \<and> (\<forall>(k, g)\<in>set (groupby f ys). g = filter (\<lambda>y. f y = k) ys)"
  using assms
proof (induction f ys rule: groupby.induct)
  case (1 f)
  show ?case by simp
next
  case (2 f x xs)
  let ?P = "\<lambda>y. f y = f x"
  let ?rest = "dropWhile ?P xs"
  from "2.prems" have sx: "sorted (map f xs)" and ge: "\<forall>y\<in>set xs. f x \<le> f y"
    by simp_all
  from run_of_sorted [OF sx ge]
  have tw: "takeWhile ?P xs = filter ?P xs" and gt: "\<forall>y\<in>set ?rest. f x < f y"
    by simp_all
  from sx have "sorted (map f ?rest)" by (rule sorted_map_dropWhile)
  then have IH: "distinct (map fst (groupby f ?rest))
         \<and> (\<forall>(k, g)\<in>set (groupby f ?rest). g = filter (\<lambda>y. f y = k) ?rest)"
    by (rule "2.IH")
  have keys: "f x < k" if "k \<in> fst ` set (groupby f ?rest)" for k
    using that gt unfolding groupby_fst by blast
  have "f x \<notin> fst ` set (groupby f ?rest)"
    using keys by blast
  with IH have D: "distinct (map fst (groupby f (x # xs)))" by simp
  have G: "g = filter (\<lambda>y. f y = k) (x # xs)" if kg: "(k, g) \<in> set (groupby f ?rest)" for k g
  proof -
    from kg have "k \<in> fst ` set (groupby f ?rest)" by force
    then have k: "f x < k" by (rule keys)
    from kg IH have g1: "g = filter (\<lambda>y. f y = k) ?rest" by blast
    have g2: "filter (\<lambda>y. f y = k) (takeWhile ?P xs) = []"
      using k by (auto simp: filter_empty_conv dest: set_takeWhileD)
    have "filter (\<lambda>y. f y = k) xs
        = filter (\<lambda>y. f y = k) (takeWhile ?P xs) @ filter (\<lambda>y. f y = k) ?rest"
      by (simp only: filter_append [symmetric] takeWhile_dropWhile_id)
    with g1 g2 have "g = filter (\<lambda>y. f y = k) xs" by simp
    with k show ?thesis by simp
  qed
  have H: "x # takeWhile ?P xs = filter ?P (x # xs)"
    using tw by simp
  have "\<forall>(k, g)\<in>set (groupby f (x # xs)). g = filter (\<lambda>y. f y = k) (x # xs)"
  proof (clarify)
    fix k g assume "(k, g) \<in> set (groupby f (x # xs))"
    then have "(k, g) = (f x, x # takeWhile ?P xs) \<or> (k, g) \<in> set (groupby f ?rest)"
      by simp
    then show "g = filter (\<lambda>y. f y = k) (x # xs)"
    proof
      assume "(k, g) = (f x, x # takeWhile ?P xs)"
      then have "k = f x" "g = x # takeWhile ?P xs" by simp_all
      then show ?thesis using H by simp
    next
      assume "(k, g) \<in> set (groupby f ?rest)"
      then show ?thesis by (rule G)
    qed
  qed
  with D show ?case by blast
qed

lemma make_batch_json: "map json (make_batch U un n items) = map un items"
proof -
  have "map json (make_batch U un n items) = map snd (enumerate 0 (map un items))"
    by (simp add: make_batch_def comp_def case_prod_unfold)
  then show ?thesis by (simp add: enumerate_eq_zip)
qed

lemma make_batch_insertId: "map insertId (make_batch U un n items) = map U [n..<n + length items]"
proof -
  have e: "map fst (enumerate 0 (map un items)) = [0..<length items]"
    by (simp add: enumerate_eq_zip)
  have "map insertId (make_batch U un n items)
      = map ((\<lambda>i. U (i + n)) \<circ> fst) (enumerate 0 (map un items))"
    by (simp add: make_batch_def comp_def case_prod_unfold add.commute)
  also have "\<dots> = map (U \<circ> (\<lambda>i. i + n)) (map fst (enumerate 0 (map un items)))"
    by (simp only: map_map comp_def)
  also have "\<dots> = map U (map (\<lambda>i. i + n) [0..<length items])"
    by (simp only: e map_map)
  also have "\<dots> = map U [n..<n + length items]"
    by (simp only: map_add_upt add.commute)
  finally show ?thesis .
qed


lemma yield_batches_Inr:
  assumes "\<forall>(k, g)\<in>set groups. g \<noteq> [] \<and> (\<forall>y\<in>set g. extract_item_date y = k)"
  shows "\<exists>bs. yield_batches U un n groups = Inr (bs, n + length (concat (map snd groups)))
           \<and> map fst bs = map fst groups
           \<and> (\<forall>(k, b)\<in>set bs. \<exists>g. (k, g) \<in> set groups \<and> map json b = map un g)
           \<and> batch_rows bs = map un (concat (map snd groups))
           \<and> batch_ids bs = map U [n..<n + length (concat (map snd groups))]"
  using assms
proof (induction groups arbitrary: n)
  case Nil
  show ?case by (simp add: batch_rows_def batch_ids_def)
next
  case (Cons kg groups)
  obtain k g where kg: "kg = (k, g)" by (cases kg)
  from Cons.prems kg obtain first more where g: "g = first # more"
    by (cases g) auto
  from Cons.prems kg g have key: "extract_item_date first = k" by simp
  from Cons.prems have "\<forall>(k, g)\<in>set groups. g \<noteq> [] \<and> (\<forall>y\<in>set g. extract_item_date y = k)"
    by simp
  from Cons.IH [OF this, of "n + length g"]
  obtain bs where
    y: "yield_batches U un (n + length g) groups
          = Inr (bs, n + length g + length (concat (map snd groups)))"
    and f: "map fst bs = map fst groups"
    and m: "\<forall>(k, b)\<in>set bs. \<exists>g. (k, g) \<in> set groups \<and> map json b = map un g"
    and r: "batch_rows bs = map un (concat (map snd groups))"
    and i: "batch_ids bs = map U [n + length g..<n + length g + length (concat (map snd groups))]"
    by blast
  let ?b = "make_batch U un n g"
  have Y: "yield_batches U un n (kg # groups)
      = Inr ((k, ?b) # bs, n + length (concat (map snd (kg # groups))))"
    using y by (simp add: kg g key add.assoc)
  have F: "map fst ((k, ?b) # bs) = map fst (kg # groups)"
    using f by (simp add: kg)
  have M: "\<forall>(k', b)\<in>set ((k, ?b) # bs). \<exists>g'. (k', g') \<in> set (kg # groups) \<and> map json b = map un g'"
    using m by (auto simp: kg make_batch_json)
  have R: "batch_rows ((k, ?b) # bs) = map un (concat (map snd (kg # groups)))"
    using r by (simp add: batch_rows_def kg make_batch_json)
  have "[n..<n + length g + length (concat (map snd groups))]
      = [n..<n + length g] @ [n + length g..<n + length g + length (concat (map snd groups))]"
    by (metis le_add1 upt_add_eq_append)
  then have I: "batch_ids ((k, ?b) # bs) = map U [n..<n + length (concat (map snd (kg # groups)))]"
    using i by (simp add: batch_ids_def kg make_batch_insertId add.assoc)
  from Y F M R I show ?case by blast
qed

lemma compute_batches_Inr:
  "\<exists>bs. compute_batches U un n all_items = Inr (bs, n + length all_items)
     \<and> distinct (map fst bs)
     \<and> fst ` set bs = extract_item_date ` set all_items
     \<and> (\<forall>(k, b)\<in>set bs.
          map json b = map un (filter (\<lambda>e. extract_item_date e = k) all_items))
     \<and> batch_rows bs = map un (sort_key extract_item_date all_items)
     \<and> batch_ids bs = map U [n..<n + length all_items]"
proof -
  let ?s = "sort_key extract_item_date all_items"
  let ?gs = "groupby extract_item_date ?s"
  have c: "concat (map snd ?gs) = ?s" by (rule groupby_concat)
  have "\<forall>(k, g)\<in>set ?gs. g \<noteq> [] \<and> (\<forall>y\<in>set g. extract_item_date y = k)"
    using groupby_group [of _ _ extract_item_date ?s] by blast
  from yield_batches_Inr [OF this, of U un n]
  obtain bs where
    y: "yield_batches U un n ?gs = Inr (bs, n + length (concat (map snd ?gs)))"
    and f: "map fst bs = map fst ?gs"
    and m: "\<forall>(k, b)\<in>set bs. \<exists>g. (k, g) \<in> set ?gs \<and> map json b = map un g"
    and r: "batch_rows bs = map un (concat (map snd ?gs))"
    and i: "batch_ids bs = map U [n..<n + length (concat (map snd ?gs))]"
    by blast
  have srt: "sorted (map extract_item_date ?s)" by (rule sorted_sort_key)
  from groupby_sorted [OF srt]
  have d: "distinct (map fst ?gs)"
    and fl: "\<forall>(k, g)\<in>set ?gs. g = filter (\<lambda>y. extract_item_date y = k) ?s"
    by simp_all
  have 1: "compute_batches U un n all_items = Inr (bs, n + length all_items)"
    using y by (simp add: compute_batches_def c)
  have 2: "distinct (map fst bs)" using d f by simp
  have "fst ` set bs = fst ` set ?gs"
    using f by (metis set_map)
  then have 3: "fst ` set bs = extract_item_date ` set all_items"
    by (simp add: groupby_fst)
  have 4: "\<forall>(k, b)\<in>set bs.
          map json b = map un (filter (\<lambda>e. extract_item_date e = k) all_items)"
  proof (clarify)
    fix k b assume "(k, b) \<in> set bs"
    with m obtain g where g: "(k, g) \<in> set ?gs" and j: "map json b = map un g" by blast
    from g fl have "g = filter (\<lambda>y. extract_item_date y = k) ?s" by blast
    then have "g = filter (\<lambda>y. extract_item_date y = k) all_items"
      by (simp only: sort_key_stable)
    with j show "map json b = map un (filter (\<lambda>e. extract_item_date e = k) all_items)"
      by simp
  qed
  have 5: "batch_rows bs = map un ?s" using r by (simp only: c)
  have 6: "batch_ids bs = map U [n..<n + length all_items]" using i by (simp add: c)
  from 1 2 3 4 5 6 show ?thesis by blast
qed

lemma example_batches:
  "compute_batches (\<lambda>i. [i]) details n example_items
     = Inr ([([50, 48, 49, 56, 49, 49, 51, 48, 53],
              [\<lparr>insertId = [n], json = 1\<rparr>, \<lparr>insertId = [n + 1], json = 3\<rparr>]),
             ([50, 48, 49, 56, 49, 53], [\<lparr>insertId = [n + 2], json = 2\<rparr>])], n + 3)"
  by (simp add: compute_batches_def sort_key_def example_items_def at_midnight_def
      extract_item_date_def format_YYYYMDDD_def format_04d_def tm_yday_def
      days_before_month_def is_leap_def str_nat.simps make_batch_def)

text \<open>
  C2. \<^verbatim>\<open>compute_batches\<close> returns, for every list of events: the keys of the batches
  are pairwise distinct and are exactly the partition keys that occur in the input; the
  batch under a key holds the rows of exactly the input events with that key, in their
  order of arrival; and all batches together hold every input event once.
\<close>

theorem compute_batches_partition:
  "\<exists>batches n'. compute_batches uuid4_str unstructure n all_items = Inr (batches, n')
     \<and> distinct (map fst batches)
     \<and> fst ` set batches = extract_item_date ` set all_items
     \<and> (\<forall>(k, b)\<in>set batches.
          map json b = map unstructure (filter (\<lambda>e. extract_item_date e = k) all_items))
     \<and> mset (batch_rows batches) = image_mset unstructure (mset all_items)"
proof -
  from compute_batches_Inr [of uuid4_str unstructure n all_items]
  obtain bs where
    1: "compute_batches uuid4_str unstructure n all_items = Inr (bs, n + length all_items)"
    and 2: "distinct (map fst bs)"
    and 3: "fst ` set bs = extract_item_date ` set all_items"
    and 4: "\<forall>(k, b)\<in>set bs.
          map json b = map unstructure (filter (\<lambda>e. extract_item_date e = k) all_items)"
    and 5: "batch_rows bs = map unstructure (sort_key extract_item_date all_items)"
    by blast
  from 5 have "mset (batch_rows bs) = image_mset unstructure (mset all_items)"
    by simp
  with 1 2 3 4 show ?thesis by blast
qed

theorem compute_batches_partition_witness:
  "compute_batches (\<lambda>i. [i]) details 0 example_items
     = Inr ([([50, 48, 49, 56, 49, 49, 51, 48, 53],
              [\<lparr>insertId = [0], json = 1\<rparr>, \<lparr>insertId = [1], json = 3\<rparr>]),
             ([50, 48, 49, 56, 49, 53], [\<lparr>insertId = [2], json = 2\<rparr>])], 3)
   \<and> map details (filter (\<lambda>e. extract_item_date e = [50, 48, 49, 56, 49, 49, 51, 48, 53])
         example_items) = [1, 3]
   \<and> map details (filter (\<lambda>e. extract_item_date e = [50, 48, 49, 56, 49, 53])
         example_items) = [2]
   \<and> extract_item_date ` set example_items
       = {[50, 48, 49, 56, 49, 49, 51, 48, 53], [50, 48, 49, 56, 49, 53]}"
proof -
  from compute_batches_partition [of "\<lambda>i. [i]" details 0 example_items]
  obtain batches n' where
    r: "compute_batches (\<lambda>i. [i]) details 0 example_items = Inr (batches, n')"
    and k: "fst ` set batches = extract_item_date ` set example_items"
    and b: "\<forall>(k, b)\<in>set batches.
          map json b = map details (filter (\<lambda>e. extract_item_date e = k) example_items)"
    by blast
  from r example_batches [of 0]
  have e: "batches = [([50, 48, 49, 56, 49, 49, 51, 48, 53],
              [\<lparr>insertId = [0], json = 1\<rparr>, \<lparr>insertId = [1], json = 3\<rparr>]),
             ([50, 48, 49, 56, 49, 53], [\<lparr>insertId = [2], json = 2\<rparr>])]"
    and n: "n' = 3"
    by auto
  from b show ?thesis
    unfolding e using r k [symmetric] by (simp add: e n)
qed

text \<open>
  C9. When distinct draws of the identifier generator give distinct values, the
  insertion identifiers of all records of one call of \<^verbatim>\<open>compute_batches\<close> are
  pairwise distinct, and distinct from those of any later call on the same input. A call
  on \<open>k\<close> events that starts at the draw \<open>n\<close> takes the draws \<open>n, \<dots>, n + k - 1\<close>; a
  later call starts at some draw \<open>m\<close> beyond them, whatever was drawn in between.
\<close>

theorem compute_batches_fresh_ids:
  assumes "inj uuid4_str" and "n + length all_items \<le> m"
  shows "\<exists>first_call second_call n'.
           compute_batches uuid4_str unstructure n all_items
             = Inr (first_call, n + length all_items)
         \<and> compute_batches uuid4_str unstructure m all_items = Inr (second_call, n')
         \<and> distinct (batch_ids first_call @ batch_ids second_call)"
proof -
  from compute_batches_Inr [of uuid4_str unstructure n all_items]
  obtain bs1 where
    a: "compute_batches uuid4_str unstructure n all_items = Inr (bs1, n + length all_items)"
    and ia: "batch_ids bs1 = map uuid4_str [n..<n + length all_items]"
    by blast
  from compute_batches_Inr [of uuid4_str unstructure m all_items]
  obtain bs2 where
    b: "compute_batches uuid4_str unstructure m all_items = Inr (bs2, m + length all_items)"
    and ib: "batch_ids bs2 = map uuid4_str [m..<m + length all_items]"
    by blast
  have "distinct ([n..<n + length all_items] @ [m..<m + length all_items])"
    using assms(2) by auto
  then have "distinct (map uuid4_str ([n..<n + length all_items] @ [m..<m + length all_items]))"
    using assms(1) by (simp only: distinct_map) (meson inj_on_subset subset_UNIV)
  then have "distinct (batch_ids bs1 @ batch_ids bs2)"
    by (simp only: ia ib map_append)
  with a b show ?thesis by blast
qed


theorem compute_batches_fresh_ids_witness:
  "inj (\<lambda>i::nat. [i]) \<and>
   distinct
     (batch_ids (fst (projr (compute_batches (\<lambda>i. [i]) details 0 example_items)))
      @ batch_ids (fst (projr (compute_batches (\<lambda>i. [i]) details 3 example_items))))
   \<and> batch_ids (fst (projr (compute_batches (\<lambda>i. [i]) details 3 example_items)))
       = [[3], [4], [5]]"
proof -
  have i: "inj (\<lambda>i::nat. [i])" by (simp add: inj_def)
  have "length example_items = 3" by (simp add: example_items_def)
  then have l: "0 + length example_items \<le> 3" by simp
  from compute_batches_fresh_ids [OF i l, of details]
  obtain first_call second_call n' where
    a: "compute_batches (\<lambda>i. [i]) details 0 example_items
          = Inr (first_call, 0 + length example_items)"
    and b: "compute_batches (\<lambda>i. [i]) details 3 example_items = Inr (second_call, n')"
    and d: "distinct (batch_ids first_call @ batch_ids second_call)"
    by blast
  from b example_batches [of 3] have "batch_ids second_call = [[3], [4], [5]]"
    by (auto simp: batch_ids_def)
  with i a b d show ?thesis by simp
qed

section \<open>Properties of \<^verbatim>\<open>send_batch\<close>\<close>


lemma insert_within_is_Exception:
  assumes "\<forall>k x. bq k = InsertRaises x \<longrightarrow> is_Exception x"
    and "insert_within bq t k = Some x"
  shows "is_Exception x"
  using assms
  by (auto simp: insert_within_def Let_def split: if_splits insert_outcome.splits)

lemma actually_send_batch_done:
  assumes "insert_within bq t k = None"
  shows "actually_send_batch bq t w m k
           = ([Attempt k (case t of None \<Rightarrow> 15 | Some t \<Rightarrow> t)], None)"
  using assms by (subst actually_send_batch.simps) (simp add: Let_def)

lemma actually_send_batch_raise:
  assumes "insert_within bq t k = Some x"
    and "\<not> retry_if_exception_type x \<or> stop_after_attempt m k"
  shows "actually_send_batch bq t w m k
           = ([Attempt k (case t of None \<Rightarrow> 15 | Some t \<Rightarrow> t)], Some x)"
  using assms by (subst actually_send_batch.simps) (auto simp: Let_def)

lemma actually_send_batch_again:
  assumes "insert_within bq t k = Some x"
    and "retry_if_exception_type x" and "\<not> stop_after_attempt m k"
  shows "actually_send_batch bq t w m k
           = (Attempt k (case t of None \<Rightarrow> 15 | Some t \<Rightarrow> t) # BeforeSleepLog # Sleep (w k)
                # fst (actually_send_batch bq t w m (Suc k)),
              snd (actually_send_batch bq t w m (Suc k)))"
  using assms
  by (subst actually_send_batch.simps) (simp add: Let_def split: prod.split)

lemma actually_send_batch_last:
  "attempts (fst (actually_send_batch bq t w m k)) \<noteq> []
   \<and> insert_within bq t (last (attempts (fst (actually_send_batch bq t w m k))))
       = snd (actually_send_batch bq t w m k)
   \<and> last (fst (actually_send_batch bq t w m k))
       = Attempt (last (attempts (fst (actually_send_batch bq t w m k))))
           (case t of None \<Rightarrow> 15 | Some t \<Rightarrow> t)
   \<and> fst (actually_send_batch bq t w m k) \<noteq> []"
proof (induction bq t w m k rule: actually_send_batch.induct)
  case (1 bq t w m k)
  show ?case
  proof (cases "insert_within bq t k")
    case None
    then show ?thesis by (simp add: actually_send_batch_done)
  next
    case (Some x)
    show ?thesis
    proof (cases "\<not> retry_if_exception_type x \<or> stop_after_attempt m k")
      case True
      with Some show ?thesis by (simp add: actually_send_batch_raise)
    next
      case False
      then have a: "retry_if_exception_type x" and b: "\<not> stop_after_attempt m k"
        by simp_all
      from a have a': "\<not> \<not> retry_if_exception_type x" by simp
      note IH = "1.IH" [OF refl Some a' b]
      then show ?thesis
        by (simp add: actually_send_batch_again [OF Some a b])
    qed
  qed
qed



lemma attempts_append: "attempts (xs @ ys) = attempts xs @ attempts ys"
  by (induction xs rule: attempts.induct) simp_all




text \<open>
  C5. Whatever the sink does in each attempt, as long as what it raises are exceptions in
  the sense of Python's \<^verbatim>\<open>Exception\<close> (timeouts, transport failures and any other
  error), \<^verbatim>\<open>send_batch\<close> returns normally: when the last attempt made has failed,
  the last action is the log entry for it, with the size of the batch. A
  \<^verbatim>\<open>send_batch\<close> has no action that puts anything on a queue.
\<close>

theorem send_batch_never_raises:
  assumes "\<forall>k x. bq k = InsertRaises x \<longrightarrow> is_Exception x"
  shows "\<exists>acts. send_batch bq batch retry_max_attempts retry_max_wait retry_multiplier
                  api_timeout = (acts, None)
           \<and> attempts acts \<noteq> []
           \<and> (case insert_within bq api_timeout (last (attempts acts)) of
                 None \<Rightarrow> \<exists>t. last acts = Attempt (last (attempts acts)) t
               | Some x \<Rightarrow>
                   last acts = (if x = TooSlowError then LogError (length batch)
                                else LogException (length batch)))"
proof -
  define m where "m = (case retry_max_attempts of None \<Rightarrow> 15 | Some m \<Rightarrow> m)"
  define w where "w = wait_exponential (case retry_multiplier of None \<Rightarrow> 1 / 2 | Some c \<Rightarrow> c)
     (case retry_max_wait of None \<Rightarrow> 60 | Some w \<Rightarrow> w)"
  define a where "a = fst (actually_send_batch bq api_timeout w m 1)"
  define r where "r = snd (actually_send_batch bq api_timeout w m 1)"
  have run: "actually_send_batch bq api_timeout w m 1 = (a, r)"
    by (simp add: a_def r_def)
  from actually_send_batch_last [of bq api_timeout w m 1]
  have ne: "attempts a \<noteq> []"
    and lr: "insert_within bq api_timeout (last (attempts a)) = r"
    and la: "last a = Attempt (last (attempts a)) (case api_timeout of None \<Rightarrow> 15 | Some t \<Rightarrow> t)"
    by (simp_all add: a_def r_def)
  show ?thesis
  proof (cases r)
    case None
    then have "send_batch bq batch retry_max_attempts retry_max_wait retry_multiplier
                  api_timeout = (a, None)"
      using run by (simp add: send_batch_def Let_def m_def w_def)
    with ne lr la None show ?thesis by simp
  next
    case (Some x)
    with lr have "insert_within bq api_timeout (last (attempts a)) = Some x" by simp
    with assms have ex: "is_Exception x" by (rule insert_within_is_Exception)
    let ?log = "if x = TooSlowError then LogError (length batch) else LogException (length batch)"
    have "send_batch bq batch retry_max_attempts retry_max_wait retry_multiplier
                  api_timeout = (a @ [?log], None)"
      using run Some ex by (simp add: send_batch_def Let_def m_def w_def)
    moreover have "attempts (a @ [?log]) = attempts a"
      by (simp add: attempts_append)
    ultimately show ?thesis using ne lr Some by simp
  qed
qed

theorem send_batch_never_raises_witness:
  "send_batch (\<lambda>k. if k < 2 then InsertRaises BrokenStreamError else InsertRaises OtherException)
     [0::nat, 1] None None None None
   = ([Attempt 1 15, BeforeSleepLog, Sleep 1, Attempt 2 15, LogException 2], None)"
proof -
  let ?bq = "\<lambda>k::nat. if k < 2 then InsertRaises BrokenStreamError else InsertRaises OtherException"
  have h: "\<forall>k x. ?bq k = InsertRaises x \<longrightarrow> is_Exception x" by auto
  from send_batch_never_raises [OF h, of "[0::nat, 1]" None None None None]
  obtain acts where
    "send_batch ?bq [0::nat, 1] None None None None = (acts, None)" by blast
  moreover have "fst (send_batch ?bq [0::nat, 1] None None None None)
      = [Attempt 1 15, BeforeSleepLog, Sleep 1, Attempt 2 15, LogException 2]"
    by (simp add: send_batch_def actually_send_batch.simps insert_within_def
        retry_if_exception_type_def stop_after_attempt_def wait_exponential_def)
  ultimately show ?thesis by simp
qed

text \<open>
  Outside the errors: trio's \<^verbatim>\<open>Cancelled\<close> derives from \<^verbatim>\<open>BaseException\<close>, so that
  \<^verbatim>\<open>except Exception\<close> lets a cancellation of the task through.
\<close>

lemma send_batch_cancelled_propagates:
  "send_batch (\<lambda>k. InsertRaises Cancelled) batch None None None None
     = ([Attempt 1 15], Some Cancelled)"
  by (simp add: send_batch_def actually_send_batch.simps insert_within_def
      retry_if_exception_type_def)




section \<open>Properties of \<^verbatim>\<open>handle_connection\<close>\<close>





text \<open>
  When the line receiver raises on a chunk, the rest of the stream is not received.
\<close>

lemma handle_connection_stops_at_signal:
  assumes "recieve_data lr s data = (events, Inl x)"
  shows "handle_connection lr s (Data data # rest)
           = (map Put events @ [Raised x, Aclose 30],
              if x = BufferTooLargeError \<or> x = TruncatedLineError then None else Some x)"
  using assms by (simp add: handle_connection_def feed_def)

lemma handle_connection_example:
  "handle_connection example_receiver () [Data [1], Data [1, 2, 3], Data [4]]
     = ([Put [1], Raised BufferTooLargeError, Aclose 30], None)"
  "handle_connection example_receiver () [Data [1], RecvRaises BrokenStreamError, Data [4]]
     = ([Put [1], Aclose 30], None)"
  "handle_connection example_receiver () [Data [1], Data [4]]
     = ([Put [1], Put [4], Aclose 30], None)"
  by (simp_all add: handle_connection_def feed_def example_receiver_def)

section \<open>Properties of \<^verbatim>\<open>sender\<close>\<close>






end
